theory Spec2Isabelle
  imports Main "HOL-Library.Word" "HOL-Library.AList" "HOL-Library.Multiset"
begin

section \<open>The status monitor of a server node (server/status/monitor.go)\<close>

text \<open>
  The file embeds two layers of \<^verbatim>\<open>monitor.go\<close>: the \<^verbatim>\<open>rangeDataAccumulator\<close>, which
  folds storage events into a statistics total and a range count, and the
  \<^verbatim>\<open>NodeStatusMonitor\<close>, which keeps one \<^verbatim>\<open>StoreStatusMonitor\<close> per store identifier.
  Every method of the source takes its receiver's mutex on entry and releases it on
  return; the embedding is sequential, so a method is the state transformer that runs
  between \<^verbatim>\<open>Lock\<close> and \<^verbatim>\<open>Unlock\<close>.
\<close>

subsection \<open>Data\<close>

type_synonym int64 = "64 word"

text \<open>
  Go panics with "assignment to entry in nil map" when a nil map is written; reading a nil
  map is allowed and finds nothing. A pointer that is not allocated cannot occur in Go; the
  embedding keeps the case as a value so that no heap read is left unspecified.
\<close>

datatype panic = NilMapAssignment | InvalidPointer

text \<open>
  Modelled from the spec: \<^verbatim>\<open>proto.MVCCStats\<close> and its methods \<^verbatim>\<open>Add\<close> and \<^verbatim>\<open>Subtract\<close>
  are declared in package \<^verbatim>\<open>proto\<close>, outside \<^verbatim>\<open>monitor.go\<close>. The
  specification describes the type as a commutative-group-valued metric set with pointwise
  addition and subtraction, so the statistics are a type \<open>'s\<close> of the class of
  commutative additive groups: \<^verbatim>\<open>ms.Add(&oms)\<close> is \<open>ms + oms\<close>.
\<close>

definition MVCCStats_Add :: "'s::ab_group_add \<Rightarrow> 's \<Rightarrow> 's" where
  "MVCCStats_Add ms oms = ms + oms"

text \<open>
  Modelled from the spec: \<^verbatim>\<open>ms.Subtract(&oms)\<close> of \<^verbatim>\<open>proto.MVCCStats\<close>, the pointwise
  subtraction of the same commutative group.
\<close>

definition MVCCStats_Subtract :: "'s::ab_group_add \<Rightarrow> 's \<Rightarrow> 's" where
  "MVCCStats_Subtract ms oms = ms - oms"

text \<open>
  Modelled from the spec: the composite literal \<^verbatim>\<open>proto.MVCCStats{}\<close>, every metric zero,
  which is the neutral element of the group.
\<close>

definition MVCCStats_zero :: "'s::ab_group_add" where
  "MVCCStats_zero = 0"

text \<open>
  \<^verbatim>\<open>rangeDataAccumulator\<close> (lines 160-179). \<^verbatim>\<open>seenScan\<close> is a \<^verbatim>\<open>map[int64]struct{}\<close>
  that may be nil: \<open>None\<close> is the nil map, \<open>Some m\<close> an allocated one. The embedded mutex
  is not a field of the record.
\<close>

record 's rangeDataAccumulator =
  stats :: 's
  rangeCount :: int64
  isScanning :: bool
  seenScan :: "(int64 \<rightharpoonup> unit) option"

text \<open>
  \<^verbatim>\<open>StoreStatusMonitor\<close> (lines 31-34) embeds the accumulator and adds the store's
  identifier, so it is the record extended by \<open>ID\<close>. \<^verbatim>\<open>proto.StoreID\<close> is declared outside
  \<^verbatim>\<open>monitor.go\<close> and is a type parameter \<open>'sid\<close>.
\<close>

record ('sid, 's) StoreStatusMonitor = "'s rangeDataAccumulator" +
  ID :: 'sid

subsection \<open>The accumulator's methods\<close>

text \<open>
  The methods are defined on the record scheme, so they apply to a
  \<^verbatim>\<open>StoreStatusMonitor\<close> as the promoted methods of the embedded struct do. Each takes the
  fields of the event that the source reads: \<^verbatim>\<open>event.Desc.RaftID\<close>, \<^verbatim>\<open>event.Stats\<close>,
  \<^verbatim>\<open>event.Delta\<close>.
\<close>

text \<open>\<^verbatim>\<open>addRange\<close> (lines 181-189).\<close>

definition addRange ::
  "int64 \<Rightarrow> 's::ab_group_add \<Rightarrow> ('s, 'z) rangeDataAccumulator_scheme
    \<Rightarrow> panic + ('s, 'z) rangeDataAccumulator_scheme" where
  "addRange RaftID Stats rda =
     (if isScanning rda then
        (case seenScan rda of
           None \<Rightarrow> Inl NilMapAssignment
         | Some m \<Rightarrow>
             Inr (rda\<lparr>seenScan := Some (m(RaftID \<mapsto> ())),
                      rangeCount := rangeCount rda + 1,
                      stats := MVCCStats_Add (stats rda) Stats\<rparr>))
      else Inr rda)"

text \<open>\<^verbatim>\<open>updateRange\<close> (lines 191-202). The lookup in a nil map reports "not seen".\<close>

definition updateRange ::
  "int64 \<Rightarrow> 's::ab_group_add \<Rightarrow> ('s, 'z) rangeDataAccumulator_scheme
    \<Rightarrow> ('s, 'z) rangeDataAccumulator_scheme" where
  "updateRange RaftID Delta rda =
     (if isScanning rda \<and>
         (case seenScan rda of None \<Rightarrow> True | Some m \<Rightarrow> m RaftID = None)
      then rda
      else rda\<lparr>stats := MVCCStats_Add (stats rda) Delta\<rparr>)"

text \<open>\<^verbatim>\<open>removeRange\<close> (lines 204-209).\<close>

definition removeRange ::
  "'s::ab_group_add \<Rightarrow> ('s, 'z) rangeDataAccumulator_scheme
    \<Rightarrow> ('s, 'z) rangeDataAccumulator_scheme" where
  "removeRange Stats rda =
     rda\<lparr>stats := MVCCStats_Subtract (stats rda) Stats,
         rangeCount := rangeCount rda - 1\<rparr>"

text \<open>\<^verbatim>\<open>splitRange\<close> (lines 211-215) and \<^verbatim>\<open>mergeRange\<close> (lines 217-221).\<close>

definition splitRange ::
  "('s, 'z) rangeDataAccumulator_scheme \<Rightarrow> ('s, 'z) rangeDataAccumulator_scheme" where
  "splitRange rda = rda\<lparr>rangeCount := rangeCount rda + 1\<rparr>"

definition mergeRange ::
  "('s, 'z) rangeDataAccumulator_scheme \<Rightarrow> ('s, 'z) rangeDataAccumulator_scheme" where
  "mergeRange rda = rda\<lparr>rangeCount := rangeCount rda - 1\<rparr>"

text \<open>\<^verbatim>\<open>beginScanRanges\<close> (lines 223-230) and \<^verbatim>\<open>endScanRanges\<close> (lines 232-237).\<close>

definition beginScanRanges ::
  "('s::ab_group_add, 'z) rangeDataAccumulator_scheme
    \<Rightarrow> ('s, 'z) rangeDataAccumulator_scheme" where
  "beginScanRanges rda =
     rda\<lparr>isScanning := True,
         stats := MVCCStats_zero,
         rangeCount := 0,
         seenScan := Some Map.empty\<rparr>"

definition endScanRanges ::
  "('s, 'z) rangeDataAccumulator_scheme \<Rightarrow> ('s, 'z) rangeDataAccumulator_scheme" where
  "endScanRanges rda = rda\<lparr>isScanning := False, seenScan := None\<rparr>"

text \<open>
  The zero value of the struct, which is what \<^verbatim>\<open>&StoreStatusMonitor{ID: id}\<close> gives the
  embedded accumulator: zero statistics, no ranges, not scanning, a nil \<^verbatim>\<open>seenScan\<close>.
\<close>

definition zero_rangeDataAccumulator :: "'s::ab_group_add rangeDataAccumulator" where
  "zero_rangeDataAccumulator =
     \<lparr>stats = MVCCStats_zero, rangeCount = 0, isScanning = False, seenScan = None\<rparr>"

subsection \<open>Sequences of events on one accumulator\<close>

text \<open>
  The events an accumulator receives, without the store identifier that the node monitor
  uses for routing. An event sequence is applied from left to right and stops at the first
  panic.
\<close>

datatype 's rangeEvent =
    AddRange int64 's
  | UpdateRange int64 's
  | RemoveRange 's
  | SplitRange
  | MergeRange
  | BeginScan
  | EndScan

fun applyEvent ::
  "'s::ab_group_add rangeEvent \<Rightarrow> ('s, 'z) rangeDataAccumulator_scheme
    \<Rightarrow> panic + ('s, 'z) rangeDataAccumulator_scheme" where
  "applyEvent (AddRange i s) rda = addRange i s rda"
| "applyEvent (UpdateRange i d) rda = Inr (updateRange i d rda)"
| "applyEvent (RemoveRange s) rda = Inr (removeRange s rda)"
| "applyEvent SplitRange rda = Inr (splitRange rda)"
| "applyEvent MergeRange rda = Inr (mergeRange rda)"
| "applyEvent BeginScan rda = Inr (beginScanRanges rda)"
| "applyEvent EndScan rda = Inr (endScanRanges rda)"

fun applyEvents ::
  "'s::ab_group_add rangeEvent list \<Rightarrow> ('s, 'z) rangeDataAccumulator_scheme
    \<Rightarrow> panic + ('s, 'z) rangeDataAccumulator_scheme" where
  "applyEvents [] rda = Inr rda"
| "applyEvents (e # es) rda =
     (case applyEvent e rda of Inl p \<Rightarrow> Inl p | Inr rda' \<Rightarrow> applyEvents es rda')"

text \<open>
  The seen-set as the source reads it in \<^verbatim>\<open>_, seen := rda.seenScan[id]\<close>: a nil map
  holds no key.
\<close>

definition seen :: "('s, 'z) rangeDataAccumulator_scheme \<Rightarrow> int64 \<Rightarrow> bool" where
  "seen rda RaftID = (case seenScan rda of None \<Rightarrow> False | Some m \<Rightarrow> m RaftID \<noteq> None)"

text \<open>
  From the specification's words, for comparison with the flag the code keeps: the
  accumulator is scanning exactly between a \<^verbatim>\<open>BeginScan\<close> and its matching \<^verbatim>\<open>EndScan\<close>.
  There is no nesting of scans, so the \<^verbatim>\<open>EndScan\<close> that matches a \<^verbatim>\<open>BeginScan\<close> is the
  first one after it, and a history is between the two when some \<^verbatim>\<open>BeginScan\<close> in it has
  no \<^verbatim>\<open>EndScan\<close> after it.
\<close>

fun betweenBeginAndEnd :: "'s rangeEvent list \<Rightarrow> bool" where
  "betweenBeginAndEnd [] = False"
| "betweenBeginAndEnd (BeginScan # es) = (EndScan \<notin> set es \<or> betweenBeginAndEnd es)"
| "betweenBeginAndEnd (e # es) = betweenBeginAndEnd es"

subsection \<open>The node monitor and its registry of stores\<close>

text \<open>
  \<^verbatim>\<open>NodeStatusMonitor\<close> (lines 42-45) maps a store identifier to a pointer. The properties
  of it speak of instances, so pointers are explicit: an address is an index into
  \<open>heap\<close>, the list of the \<^verbatim>\<open>StoreStatusMonitor\<close> objects allocated so far, and
  \<^verbatim>\<open>&StoreStatusMonitor{...}\<close> allocates at the end of the list. \<open>stores\<close> is the Go map
  as an association list: a lookup is \<open>map_of\<close>, the assignment \<^verbatim>\<open>nsm.stores[id] = s\<close> is
  \<open>AList.update\<close>, which replaces the entry of a key that is present and adds one
  otherwise. Go leaves the order of a \<^verbatim>\<open>range\<close> over a map open; the embedding iterates
  in the order of the list, and the statements below do not depend on the order.
  The map is the one \<^verbatim>\<open>NewNodeStatusMonitor\<close> makes, never nil.
\<close>

type_synonym addr = nat

record ('sid, 's) NodeStatusMonitor =
  stores :: "('sid \<times> addr) list"
  heap :: "('sid, 's) StoreStatusMonitor list"

text \<open>\<^verbatim>\<open>NewNodeStatusMonitor\<close> (lines 48-52).\<close>

definition NewNodeStatusMonitor :: "('sid, 's) NodeStatusMonitor" where
  "NewNodeStatusMonitor = \<lparr>stores = [], heap = []\<rparr>"

text \<open>The composite literal \<^verbatim>\<open>StoreStatusMonitor{ID: id}\<close> of line 71.\<close>

definition new_StoreStatusMonitor :: "'sid \<Rightarrow> ('sid, 's::ab_group_add) StoreStatusMonitor" where
  "new_StoreStatusMonitor sid =
     \<lparr>stats = MVCCStats_zero, rangeCount = 0, isScanning = False, seenScan = None, ID = sid\<rparr>"

text \<open>
  \<^verbatim>\<open>GetStoreMonitor\<close> (lines 56-76) in its two critical sections. The first, under the
  read lock, looks the identifier up and returns on a hit. The second, under the write
  lock, looks it up again and allocates and registers a monitor only on a second miss.
  \<open>GetStoreMonitor_locked\<close> is the second section (lines 66-75) alone: between the two
  sections another caller may have registered the store.
\<close>

definition GetStoreMonitor_locked ::
  "'sid \<Rightarrow> ('sid, 's::ab_group_add) NodeStatusMonitor \<Rightarrow> addr \<times> ('sid, 's) NodeStatusMonitor" where
  "GetStoreMonitor_locked sid nsm =
     (case map_of (stores nsm) sid of
        Some s \<Rightarrow> (s, nsm)
      | None \<Rightarrow>
          (let s = length (heap nsm)
           in (s, nsm\<lparr>heap := heap nsm @ [new_StoreStatusMonitor sid],
                      stores := AList.update sid s (stores nsm)\<rparr>)))"

definition GetStoreMonitor ::
  "'sid \<Rightarrow> ('sid, 's::ab_group_add) NodeStatusMonitor \<Rightarrow> addr \<times> ('sid, 's) NodeStatusMonitor" where
  "GetStoreMonitor sid nsm =
     (case map_of (stores nsm) sid of
        Some s \<Rightarrow> (s, nsm)
      | None \<Rightarrow> GetStoreMonitor_locked sid nsm)"

text \<open>
  A method call through a pointer, \<^verbatim>\<open>s.method(event)\<close>: read the object at the address,
  run the method, store the object back.
\<close>

definition call_method ::
  "addr \<Rightarrow> (('sid, 's) StoreStatusMonitor \<Rightarrow> panic + ('sid, 's) StoreStatusMonitor)
    \<Rightarrow> ('sid, 's) NodeStatusMonitor \<Rightarrow> panic + ('sid, 's) NodeStatusMonitor" where
  "call_method s method nsm =
     (if s < length (heap nsm) then
        (case method (heap nsm ! s) of
           Inl p \<Rightarrow> Inl p
         | Inr m \<Rightarrow> Inr (nsm\<lparr>heap := (heap nsm)[s := m]\<rparr>))
      else Inl InvalidPointer)"

text \<open>The event handlers (lines 102-153): find or create the store's monitor, then call it.\<close>

definition OnAddRange ::
  "'sid \<Rightarrow> int64 \<Rightarrow> 's::ab_group_add \<Rightarrow> ('sid, 's) NodeStatusMonitor
    \<Rightarrow> panic + ('sid, 's) NodeStatusMonitor" where
  "OnAddRange StoreID RaftID Stats nsm =
     (case GetStoreMonitor StoreID nsm of (s, nsm') \<Rightarrow> call_method s (addRange RaftID Stats) nsm')"

definition OnUpdateRange ::
  "'sid \<Rightarrow> int64 \<Rightarrow> 's::ab_group_add \<Rightarrow> ('sid, 's) NodeStatusMonitor
    \<Rightarrow> panic + ('sid, 's) NodeStatusMonitor" where
  "OnUpdateRange StoreID RaftID Delta nsm =
     (case GetStoreMonitor StoreID nsm of
        (s, nsm') \<Rightarrow> call_method s (\<lambda>m. Inr (updateRange RaftID Delta m)) nsm')"

definition OnRemoveRange ::
  "'sid \<Rightarrow> 's::ab_group_add \<Rightarrow> ('sid, 's) NodeStatusMonitor
    \<Rightarrow> panic + ('sid, 's) NodeStatusMonitor" where
  "OnRemoveRange StoreID Stats nsm =
     (case GetStoreMonitor StoreID nsm of
        (s, nsm') \<Rightarrow> call_method s (\<lambda>m. Inr (removeRange Stats m)) nsm')"

definition OnSplitRange ::
  "'sid \<Rightarrow> ('sid, 's::ab_group_add) NodeStatusMonitor \<Rightarrow> panic + ('sid, 's) NodeStatusMonitor" where
  "OnSplitRange StoreID nsm =
     (case GetStoreMonitor StoreID nsm of
        (s, nsm') \<Rightarrow> call_method s (\<lambda>m. Inr (splitRange m)) nsm')"

definition OnMergeRange ::
  "'sid \<Rightarrow> ('sid, 's::ab_group_add) NodeStatusMonitor \<Rightarrow> panic + ('sid, 's) NodeStatusMonitor" where
  "OnMergeRange StoreID nsm =
     (case GetStoreMonitor StoreID nsm of
        (s, nsm') \<Rightarrow> call_method s (\<lambda>m. Inr (mergeRange m)) nsm')"

definition OnStartStore ::
  "'sid \<Rightarrow> ('sid, 's::ab_group_add) NodeStatusMonitor \<Rightarrow> panic + ('sid, 's) NodeStatusMonitor" where
  "OnStartStore StoreID nsm = (case GetStoreMonitor StoreID nsm of (s, nsm') \<Rightarrow> Inr nsm')"

definition OnBeginScanRanges ::
  "'sid \<Rightarrow> ('sid, 's::ab_group_add) NodeStatusMonitor \<Rightarrow> panic + ('sid, 's) NodeStatusMonitor" where
  "OnBeginScanRanges StoreID nsm =
     (case GetStoreMonitor StoreID nsm of
        (s, nsm') \<Rightarrow> call_method s (\<lambda>m. Inr (beginScanRanges m)) nsm')"

definition OnEndScanRanges ::
  "'sid \<Rightarrow> ('sid, 's::ab_group_add) NodeStatusMonitor \<Rightarrow> panic + ('sid, 's) NodeStatusMonitor" where
  "OnEndScanRanges StoreID nsm =
     (case GetStoreMonitor StoreID nsm of
        (s, nsm') \<Rightarrow> call_method s (\<lambda>m. Inr (endScanRanges m)) nsm')"

text \<open>
  \<^verbatim>\<open>VisitStoreMonitors\<close> (lines 81-89). The visitor is a Go closure that receives the
  pointer: it may read and write the monitor it is handed and its own captured variables,
  which are the state \<open>'v\<close> threaded through the calls. \<open>visitEntries\<close> is the \<^verbatim>\<open>range\<close>
  loop over the entries of the map, taken in a given order. Go does not say in which order
  a \<^verbatim>\<open>range\<close> enumerates a map, only that it enumerates each entry once:
  \<open>VisitStoreMonitors_in\<close> takes the order as a list \<open>es\<close> of the entries, and
  \<open>VisitStoreMonitors\<close> is the enumeration in the order of the association list.
\<close>

fun visitEntries ::
  "(addr \<Rightarrow> ('sid, 's) StoreStatusMonitor \<Rightarrow> 'v \<Rightarrow> ('sid, 's) StoreStatusMonitor \<times> 'v)
    \<Rightarrow> ('sid \<times> addr) list \<Rightarrow> ('sid, 's) StoreStatusMonitor list \<Rightarrow> 'v
    \<Rightarrow> panic + (('sid, 's) StoreStatusMonitor list \<times> 'v)" where
  "visitEntries visitor [] h v = Inr (h, v)"
| "visitEntries visitor ((k, ssm) # es) h v =
     (if ssm < length h then
        (case visitor ssm (h ! ssm) v of (m, v') \<Rightarrow> visitEntries visitor es (h[ssm := m]) v')
      else Inl InvalidPointer)"

definition VisitStoreMonitors_in ::
  "('sid \<times> addr) list
    \<Rightarrow> (addr \<Rightarrow> ('sid, 's) StoreStatusMonitor \<Rightarrow> 'v \<Rightarrow> ('sid, 's) StoreStatusMonitor \<times> 'v)
    \<Rightarrow> ('sid, 's) NodeStatusMonitor \<Rightarrow> 'v \<Rightarrow> panic + (('sid, 's) NodeStatusMonitor \<times> 'v)" where
  "VisitStoreMonitors_in es visitor nsm v =
     (case visitEntries visitor es (heap nsm) v of
        Inl p \<Rightarrow> Inl p
      | Inr (h, v') \<Rightarrow> Inr (nsm\<lparr>heap := h\<rparr>, v'))"

definition VisitStoreMonitors ::
  "(addr \<Rightarrow> ('sid, 's) StoreStatusMonitor \<Rightarrow> 'v \<Rightarrow> ('sid, 's) StoreStatusMonitor \<times> 'v)
    \<Rightarrow> ('sid, 's) NodeStatusMonitor \<Rightarrow> 'v \<Rightarrow> panic + (('sid, 's) NodeStatusMonitor \<times> 'v)" where
  "VisitStoreMonitors visitor nsm v = VisitStoreMonitors_in (stores nsm) visitor nsm v"

text \<open>
  A visitor instrumented with a log of the pointers it was called with, to count the
  calls that \<^verbatim>\<open>VisitStoreMonitors\<close> makes.
\<close>

definition logged ::
  "(addr \<Rightarrow> 'm \<Rightarrow> 'v \<Rightarrow> 'm \<times> 'v) \<Rightarrow> addr \<Rightarrow> 'm \<Rightarrow> 'v \<times> addr list \<Rightarrow> 'm \<times> ('v \<times> addr list)" where
  "logged visitor ssm m vl =
     (case vl of (v, log) \<Rightarrow> (case visitor ssm m v of (m', v') \<Rightarrow> (m', (v', log @ [ssm]))))"

subsection \<open>Sequences of operations on the node monitor\<close>

text \<open>
  Modelled from the spec: \<^verbatim>\<open>storage.ProcessStoreEvents\<close>, which drains the feed, is
  declared in package \<^verbatim>\<open>storage\<close>, outside \<^verbatim>\<open>monitor.go\<close>. The specification's \<^verbatim>\<open>dispatch\<close> forwards each event to
  the handler of its kind; \<^verbatim>\<open>StartStore\<close> only materialises the monitor.
\<close>

datatype ('sid, 's) StoreEvent =
    RangeEvent 'sid "'s rangeEvent"
  | StartStoreEvent 'sid

text \<open>
  Modelled from the spec: the routing that \<^verbatim>\<open>storage.ProcessStoreEvents\<close> does for one
  event, one handler of \<^verbatim>\<open>monitor.go\<close> per kind of event.
\<close>

fun dispatch ::
  "('sid, 's::ab_group_add) StoreEvent \<Rightarrow> ('sid, 's) NodeStatusMonitor
    \<Rightarrow> panic + ('sid, 's) NodeStatusMonitor" where
  "dispatch (RangeEvent sid (AddRange i s)) nsm = OnAddRange sid i s nsm"
| "dispatch (RangeEvent sid (UpdateRange i d)) nsm = OnUpdateRange sid i d nsm"
| "dispatch (RangeEvent sid (RemoveRange s)) nsm = OnRemoveRange sid s nsm"
| "dispatch (RangeEvent sid SplitRange) nsm = OnSplitRange sid nsm"
| "dispatch (RangeEvent sid MergeRange) nsm = OnMergeRange sid nsm"
| "dispatch (RangeEvent sid BeginScan) nsm = OnBeginScanRanges sid nsm"
| "dispatch (RangeEvent sid EndScan) nsm = OnEndScanRanges sid nsm"
| "dispatch (StartStoreEvent sid) nsm = OnStartStore sid nsm"

text \<open>
  Everything a client can do to a node monitor: deliver an event, ask for a store's
  monitor, enumerate the monitors with a visitor. \<open>LockedSection\<close> is the write-locked
  half of \<^verbatim>\<open>GetStoreMonitor\<close> run on its own, as it runs for a caller whose read-locked
  lookup missed some time before.
\<close>

datatype ('sid, 's) nodeOp =
    Deliver "('sid, 's) StoreEvent"
  | Get 'sid
  | LockedSection 'sid
  | Visit "addr \<Rightarrow> ('sid, 's) StoreStatusMonitor \<Rightarrow> ('sid, 's) StoreStatusMonitor"

fun nodeStep ::
  "('sid, 's::ab_group_add) nodeOp \<Rightarrow> ('sid, 's) NodeStatusMonitor
    \<Rightarrow> panic + ('sid, 's) NodeStatusMonitor" where
  "nodeStep (Deliver ev) nsm = dispatch ev nsm"
| "nodeStep (Get sid) nsm = Inr (snd (GetStoreMonitor sid nsm))"
| "nodeStep (LockedSection sid) nsm = Inr (snd (GetStoreMonitor_locked sid nsm))"
| "nodeStep (Visit f) nsm =
     (case VisitStoreMonitors (\<lambda>a m u. (f a m, u)) nsm () of
        Inl p \<Rightarrow> Inl p
      | Inr (nsm', u) \<Rightarrow> Inr nsm')"

fun nodeRun ::
  "('sid, 's::ab_group_add) nodeOp list \<Rightarrow> ('sid, 's) NodeStatusMonitor
    \<Rightarrow> panic + ('sid, 's) NodeStatusMonitor" where
  "nodeRun [] nsm = Inr nsm"
| "nodeRun (op # ops) nsm =
     (case nodeStep op nsm of Inl p \<Rightarrow> Inl p | Inr nsm' \<Rightarrow> nodeRun ops nsm')"

text \<open>
  The registry is well formed when no identifier has two entries, no two identifiers share
  an instance, and every registered pointer is allocated.
\<close>

definition registry_ok :: "('sid, 's) NodeStatusMonitor \<Rightarrow> bool" where
  "registry_ok nsm \<longleftrightarrow>
     distinct (map fst (stores nsm)) \<and> distinct (map snd (stores nsm)) \<and>
     list_all (\<lambda>e. snd e < length (heap nsm)) (stores nsm)"

text \<open>
  A scanning accumulator has an allocated \<^verbatim>\<open>seenScan\<close>; \<^verbatim>\<open>beginScanRanges\<close> and
  \<^verbatim>\<open>endScanRanges\<close> keep the two fields in step.
\<close>

definition scan_ok :: "('s, 'z) rangeDataAccumulator_scheme \<Rightarrow> bool" where
  "scan_ok rda \<longleftrightarrow> (isScanning rda \<longrightarrow> seenScan rda \<noteq> None)"

text \<open>
  What the operations leave of an earlier registry: the entries it had, in place, possibly
  followed by new ones, and a heap that has not shrunk.
\<close>

definition extends :: "('sid, 's) NodeStatusMonitor \<Rightarrow> ('sid, 's) NodeStatusMonitor \<Rightarrow> bool" where
  "extends nsm nsm' \<longleftrightarrow>
     (\<exists>es. stores nsm' = stores nsm @ es) \<and> length (heap nsm) \<le> length (heap nsm')"

text \<open>
  Every allocated monitor is \<open>scan_ok\<close>. A visitor is handed the pointer and may write the
  monitor's fields; the operations are free of panics for the visitors that keep \<open>scan_ok\<close>.
\<close>

definition heap_ok :: "('sid, 's) NodeStatusMonitor \<Rightarrow> bool" where
  "heap_ok nsm \<longleftrightarrow> list_all scan_ok (heap nsm)"

definition visitor_keeps_scan_ok ::
  "(addr \<Rightarrow> ('sid, 's) StoreStatusMonitor \<Rightarrow> ('sid, 's) StoreStatusMonitor) \<Rightarrow> bool" where
  "visitor_keeps_scan_ok f \<longleftrightarrow> (\<forall>a m. scan_ok m \<longrightarrow> scan_ok (f a m))"

fun op_ok :: "('sid, 's) nodeOp \<Rightarrow> bool" where
  "op_ok (Visit f) = visitor_keeps_scan_ok f"
| "op_ok _ = True"


section \<open>Properties of the accumulator\<close>

subsection \<open>The range count as a signed number\<close>

lemma sint_dec64:
  assumes "sint (w::int64) \<noteq> - (2 ^ 63)"
  shows "sint (w - 1) = sint w - 1"
proof -
  have lo: "- (2 ^ 63) \<le> sint w" using sint_ge [of w] by simp
  have hi: "sint w < 2 ^ 63" using sint_lt [of w] by simp
  have "sint (w - 1) = signed_take_bit 63 (sint w - 1)"
    by (simp add: sint_word_ariths)
  also have "\<dots> = sint w - 1"
    using assms lo hi by (intro signed_take_bit_int_eq_self) auto
  finally show ?thesis .
qed

lemma sint_inc64:
  assumes "sint (w::int64) \<noteq> 2 ^ 63 - 1"
  shows "sint (w + 1) = sint w + 1"
proof -
  have lo: "- (2 ^ 63) \<le> sint w" using sint_ge [of w] by simp
  have hi: "sint w < 2 ^ 63" using sint_lt [of w] by simp
  have "sint (w + 1) = signed_take_bit 63 (sint w + 1)"
    by (simp add: sint_word_ariths)
  also have "\<dots> = sint w + 1"
    using assms lo hi by (intro signed_take_bit_int_eq_self) auto
  finally show ?thesis .
qed

subsection \<open>Single calls\<close>

text \<open>
  C5: \<^verbatim>\<open>removeRange\<close> subtracts the event's statistics from the total and decrements the
  range count by one in every state, scanning or not, and leaves the scan flag, the
  seen-set and everything else as they were. The count is Go's \<^verbatim>\<open>int64\<close>; read as a
  signed number the decrement is by one wherever the count is not the least \<^verbatim>\<open>int64\<close>.
\<close>

theorem removeRange_unconditional:
  "removeRange s rda =
     rda\<lparr>stats := MVCCStats_Subtract (stats rda) s, rangeCount := rangeCount rda - 1\<rparr>
   \<and> stats (removeRange s rda) = stats rda - s
   \<and> rangeCount (removeRange s rda) = rangeCount rda - 1
   \<and> isScanning (removeRange s rda) = isScanning rda
   \<and> seenScan (removeRange s rda) = seenScan rda
   \<and> (sint (rangeCount rda) \<noteq> - (2 ^ 63)
        \<longrightarrow> sint (rangeCount (removeRange s rda)) = sint (rangeCount rda) - 1)"
  by (simp add: removeRange_def MVCCStats_Subtract_def sint_dec64)

theorem removeRange_unconditional_witness:
  "removeRange (3::int) \<lparr>stats = 10, rangeCount = 4, isScanning = True, seenScan = Some Map.empty\<rparr>
     = \<lparr>stats = 7, rangeCount = 3, isScanning = True, seenScan = Some Map.empty\<rparr>
   \<and> sint (rangeCount (removeRange (3::int)
        \<lparr>stats = 10, rangeCount = 4, isScanning = True, seenScan = Some Map.empty\<rparr>)) = 3"
  using removeRange_unconditional
    [of "3::int" "\<lparr>stats = 10, rangeCount = 4, isScanning = True, seenScan = Some Map.empty\<rparr>"]
  by (simp add: MVCCStats_Subtract_def)

text \<open>
  C1: \<^verbatim>\<open>updateRange\<close> discards the delta when the accumulator is scanning and the range
  is not in the seen-set: statistics, range count and seen-set stay as they are. In every
  other state (not scanning, or the range already seen) it adds the delta to the
  statistics and changes nothing else. In particular \<^verbatim>\<open>BeginScan\<close>, an update of range
  1 by 5 (discarded), \<^verbatim>\<open>AddRange\<close> of range 1 with 10, a second update by 5 (applied) and
  \<^verbatim>\<open>EndScan\<close> leave a total of 15 and one range, from any starting state.
\<close>

theorem updateRange_baseline_gate:
  "(isScanning rda \<and> \<not> seen rda i \<longrightarrow> updateRange i d rda = rda)
   \<and> (\<not> isScanning rda \<or> seen rda i \<longrightarrow>
        updateRange i d rda = rda\<lparr>stats := MVCCStats_Add (stats rda) d\<rparr>
        \<and> stats (updateRange i d rda) = stats rda + d
        \<and> rangeCount (updateRange i d rda) = rangeCount rda
        \<and> isScanning (updateRange i d rda) = isScanning rda
        \<and> seenScan (updateRange i d rda) = seenScan rda)
   \<and> applyEvents [BeginScan, UpdateRange 1 5] rda0 = Inr (beginScanRanges rda0)
   \<and> applyEvents [BeginScan, UpdateRange 1 5, AddRange 1 10, UpdateRange 1 5, EndScan]
        (rda0 :: ('t::{ab_group_add,numeral}, 'y) rangeDataAccumulator_scheme)
      = Inr (rda0\<lparr>stats := 15, rangeCount := 1, isScanning := False, seenScan := None\<rparr>)"
  by (auto simp: updateRange_def seen_def addRange_def beginScanRanges_def endScanRanges_def
      MVCCStats_Add_def MVCCStats_zero_def split: option.splits)

theorem updateRange_baseline_gate_witness:
  "isScanning \<lparr>stats = 10::int, rangeCount = 1, isScanning = True, seenScan = Some [3 \<mapsto> ()]\<rparr>
   \<and> \<not> seen \<lparr>stats = 10::int, rangeCount = 1, isScanning = True, seenScan = Some [3 \<mapsto> ()]\<rparr> 7
   \<and> updateRange 7 5 \<lparr>stats = 10::int, rangeCount = 1, isScanning = True, seenScan = Some [3 \<mapsto> ()]\<rparr>
       = \<lparr>stats = 10, rangeCount = 1, isScanning = True, seenScan = Some [3 \<mapsto> ()]\<rparr>
   \<and> seen \<lparr>stats = 10::int, rangeCount = 1, isScanning = True, seenScan = Some [3 \<mapsto> ()]\<rparr> 3
   \<and> stats (updateRange 3 5
        \<lparr>stats = 10::int, rangeCount = 1, isScanning = True, seenScan = Some [3 \<mapsto> ()]\<rparr>) = 15
   \<and> stats (updateRange 7 5
        \<lparr>stats = 10::int, rangeCount = 1, isScanning = False, seenScan = None\<rparr>) = 15"
  using
    updateRange_baseline_gate
      [of "\<lparr>stats = 10::int, rangeCount = 1, isScanning = True, seenScan = Some [3 \<mapsto> ()]\<rparr>" 7 5,
       THEN conjunct1]
    updateRange_baseline_gate
      [of "\<lparr>stats = 10::int, rangeCount = 1, isScanning = True, seenScan = Some [3 \<mapsto> ()]\<rparr>" 3 5,
       THEN conjunct2, THEN conjunct1]
    updateRange_baseline_gate
      [of "\<lparr>stats = 10::int, rangeCount = 1, isScanning = False, seenScan = None\<rparr>" 7 5,
       THEN conjunct2, THEN conjunct1]
  by (simp add: seen_def MVCCStats_Add_def)

text \<open>
  C2: outside scanning mode \<^verbatim>\<open>addRange\<close> is a no-op: it returns the accumulator as it
  was. While scanning (with the seen-set that \<^verbatim>\<open>beginScanRanges\<close> allocated) it records
  the range in the seen-set, increments the range count and adds the statistics. So a call
  that changes the accumulator was made while scanning.
\<close>

theorem addRange_only_while_scanning:
  "(\<not> isScanning rda \<longrightarrow> addRange i s rda = Inr rda)
   \<and> (isScanning rda \<longrightarrow> (\<forall>m. seenScan rda = Some m \<longrightarrow>
        addRange i s rda =
          Inr (rda\<lparr>seenScan := Some (m(i \<mapsto> ())), rangeCount := rangeCount rda + 1,
                   stats := stats rda + s\<rparr>)))
   \<and> (\<forall>rda'. addRange i s rda = Inr rda' \<and> rda' \<noteq> rda \<longrightarrow> isScanning rda)"
  by (auto simp: addRange_def MVCCStats_Add_def split: option.splits)

theorem addRange_only_while_scanning_witness:
  "\<not> isScanning \<lparr>stats = 10::int, rangeCount = 1, isScanning = False, seenScan = None\<rparr>
   \<and> addRange 7 5 \<lparr>stats = 10::int, rangeCount = 1, isScanning = False, seenScan = None\<rparr>
       = Inr \<lparr>stats = 10, rangeCount = 1, isScanning = False, seenScan = None\<rparr>
   \<and> isScanning \<lparr>stats = 10::int, rangeCount = 1, isScanning = True, seenScan = Some Map.empty\<rparr>
   \<and> addRange 7 5 \<lparr>stats = 10::int, rangeCount = 1, isScanning = True, seenScan = Some Map.empty\<rparr>
       = Inr \<lparr>stats = 15, rangeCount = 2, isScanning = True, seenScan = Some [7 \<mapsto> ()]\<rparr>"
  using
    addRange_only_while_scanning
      [of "\<lparr>stats = 10::int, rangeCount = 1, isScanning = False, seenScan = None\<rparr>" 7 5,
       THEN conjunct1]
    addRange_only_while_scanning
      [of "\<lparr>stats = 10::int, rangeCount = 1, isScanning = True, seenScan = Some Map.empty\<rparr>" 7 5,
       THEN conjunct2, THEN conjunct1]
  by simp

text \<open>
  C6: \<^verbatim>\<open>splitRange\<close> increments the range count by one and \<^verbatim>\<open>mergeRange\<close> decrements it
  by one; both leave the statistics, the scan flag and the seen-set as they were, in every
  state. From a total of 100 and one range, idle, a split gives 100 and two ranges and a
  following merge gives 100 and one range.
\<close>

theorem split_merge_count_only:
  "splitRange rda = rda\<lparr>rangeCount := rangeCount rda + 1\<rparr>
   \<and> mergeRange rda = rda\<lparr>rangeCount := rangeCount rda - 1\<rparr>
   \<and> stats (splitRange rda) = stats rda \<and> seenScan (splitRange rda) = seenScan rda
   \<and> isScanning (splitRange rda) = isScanning rda
   \<and> stats (mergeRange rda) = stats rda \<and> seenScan (mergeRange rda) = seenScan rda
   \<and> isScanning (mergeRange rda) = isScanning rda
   \<and> (sint (rangeCount rda) \<noteq> 2 ^ 63 - 1
        \<longrightarrow> sint (rangeCount (splitRange rda)) = sint (rangeCount rda) + 1)
   \<and> (sint (rangeCount rda) \<noteq> - (2 ^ 63)
        \<longrightarrow> sint (rangeCount (mergeRange rda)) = sint (rangeCount rda) - 1)
   \<and> splitRange
        \<lparr>stats = 100 :: 't::{ab_group_add,numeral}, rangeCount = 1, isScanning = False,
         seenScan = None\<rparr>
       = \<lparr>stats = 100, rangeCount = 2, isScanning = False, seenScan = None\<rparr>
   \<and> mergeRange (splitRange
        \<lparr>stats = 100 :: 't, rangeCount = 1, isScanning = False, seenScan = None\<rparr>)
       = \<lparr>stats = 100, rangeCount = 1, isScanning = False, seenScan = None\<rparr>"
  by (simp add: splitRange_def mergeRange_def sint_inc64 sint_dec64)

theorem split_merge_count_only_witness:
  "sint (rangeCount (splitRange
      \<lparr>stats = 100::int, rangeCount = 1, isScanning = True, seenScan = Some Map.empty\<rparr>)) = 2
   \<and> sint (rangeCount (mergeRange
      \<lparr>stats = 100::int, rangeCount = 1, isScanning = True, seenScan = Some Map.empty\<rparr>)) = 0"
  using split_merge_count_only
    [where ?'t = int,
     of "\<lparr>stats = 100::int, rangeCount = 1, isScanning = True, seenScan = Some Map.empty\<rparr>"]
  by simp

lemma addRange_seen:
  assumes "isScanning rda" and "seen rda i"
  shows "addRange i s rda =
    Inr (rda\<lparr>rangeCount := rangeCount rda + 1, stats := MVCCStats_Add (stats rda) s\<rparr>)"
proof -
  from assms(2) obtain m where m: "seenScan rda = Some m" "m i = Some ()"
    by (auto simp: seen_def split: option.splits)
  have same: "m(i \<mapsto> ()) = m" using m(2) by (rule fun_upd_idem)
  have "rda\<lparr>seenScan := Some m\<rparr> = rda" using m(1) by simp
  then show ?thesis using assms(1) m(1) by (simp add: addRange_def same)
qed

text \<open>
  C9: a scan does not deduplicate \<^verbatim>\<open>addRange\<close>. For a range that is already in the
  seen-set the call increments the range count again and adds the statistics again, and
  the seen-set stays as it is; two \<^verbatim>\<open>AddRange\<close> events for one range in a scan count two
  ranges. What \<^verbatim>\<open>addRange\<close> does to the statistics, the count and the scan flag does not
  depend on the content of the seen-set, the other methods commute with any change of it
  or overwrite it, and \<^verbatim>\<open>updateRange\<close> is the one method whose result depends on it.
\<close>

theorem addRange_not_deduplicated:
  "(isScanning rda \<and> seen rda i \<longrightarrow>
      addRange i s rda =
        Inr (rda\<lparr>rangeCount := rangeCount rda + 1, stats := MVCCStats_Add (stats rda) s\<rparr>))
   \<and> applyEvents [BeginScan, AddRange i s, AddRange i s'] rda =
       Inr (rda\<lparr>isScanning := True, stats := s + s', rangeCount := 2,
                seenScan := Some [i \<mapsto> ()]\<rparr>)
   \<and> (\<forall>m m'. map_sum (\<lambda>p. p) (\<lambda>r. (stats r, rangeCount r, isScanning r))
                 (addRange i s (rda\<lparr>seenScan := Some m\<rparr>))
             = map_sum (\<lambda>p. p) (\<lambda>r. (stats r, rangeCount r, isScanning r))
                 (addRange i s (rda\<lparr>seenScan := Some m'\<rparr>)))
   \<and> (\<forall>x. removeRange s (rda\<lparr>seenScan := x\<rparr>) = (removeRange s rda)\<lparr>seenScan := x\<rparr>)
   \<and> (\<forall>x. splitRange (rda\<lparr>seenScan := x\<rparr>) = (splitRange rda)\<lparr>seenScan := x\<rparr>)
   \<and> (\<forall>x. mergeRange (rda\<lparr>seenScan := x\<rparr>) = (mergeRange rda)\<lparr>seenScan := x\<rparr>)
   \<and> (\<forall>x. beginScanRanges (rda\<lparr>seenScan := x\<rparr>) = beginScanRanges rda)
   \<and> (\<forall>x. endScanRanges (rda\<lparr>seenScan := x\<rparr>) = endScanRanges rda)
   \<and> updateRange 1 (5::int)
        \<lparr>stats = 0, rangeCount = 0, isScanning = True, seenScan = Some Map.empty\<rparr>
       \<noteq> (updateRange 1 5
            \<lparr>stats = 0, rangeCount = 0, isScanning = True, seenScan = Some [1 \<mapsto> ()]\<rparr>)
            \<lparr>seenScan := Some Map.empty\<rparr>"
  using addRange_seen [of rda i s]
  by (auto simp: addRange_def updateRange_def removeRange_def splitRange_def
      mergeRange_def beginScanRanges_def endScanRanges_def MVCCStats_Add_def MVCCStats_zero_def)

theorem addRange_not_deduplicated_witness:
  "isScanning \<lparr>stats = 10::int, rangeCount = 1, isScanning = True, seenScan = Some [7 \<mapsto> ()]\<rparr>
   \<and> seen \<lparr>stats = 10::int, rangeCount = 1, isScanning = True, seenScan = Some [7 \<mapsto> ()]\<rparr> 7
   \<and> addRange 7 10 \<lparr>stats = 10::int, rangeCount = 1, isScanning = True, seenScan = Some [7 \<mapsto> ()]\<rparr>
       = Inr \<lparr>stats = 20, rangeCount = 2, isScanning = True, seenScan = Some [7 \<mapsto> ()]\<rparr>"
  using addRange_not_deduplicated
    [of "\<lparr>stats = 10::int, rangeCount = 1, isScanning = True, seenScan = Some [7 \<mapsto> ()]\<rparr>" 7 10,
     THEN conjunct1]
  by (simp add: seen_def MVCCStats_Add_def)

subsection \<open>Sequences of events\<close>

text \<open>
  C4: on a freshly created accumulator, \<^verbatim>\<open>BeginScan\<close>, \<^verbatim>\<open>AddRange\<close> of range 1 with
  statistics 10, \<^verbatim>\<open>EndScan\<close> and \<^verbatim>\<open>RemoveRange\<close> with statistics 10 leave a total of zero
  and a range count of zero.
\<close>

theorem scan_then_remove:
  "applyEvents [BeginScan, AddRange 1 10, EndScan, RemoveRange 10]
     (zero_rangeDataAccumulator :: ('s::{ab_group_add,numeral}) rangeDataAccumulator)
   = Inr \<lparr>stats = 0, rangeCount = 0, isScanning = False, seenScan = None\<rparr>"
  by (simp add: zero_rangeDataAccumulator_def addRange_def beginScanRanges_def endScanRanges_def
      removeRange_def MVCCStats_Add_def MVCCStats_zero_def MVCCStats_Subtract_def)

lemma isScanning_applyEvent:
  "applyEvent e rda = Inr rda' \<Longrightarrow>
   isScanning rda' = (e = BeginScan \<or> (e \<noteq> EndScan \<and> isScanning rda))"
  by (cases e)
    (auto simp: addRange_def updateRange_def removeRange_def splitRange_def mergeRange_def
      beginScanRanges_def endScanRanges_def split: if_splits option.splits)

lemma scan_ok_applyEvent:
  "scan_ok rda \<Longrightarrow> \<exists>rda'. applyEvent e rda = Inr rda' \<and> scan_ok rda'"
  by (cases e)
    (auto simp: scan_ok_def addRange_def updateRange_def removeRange_def splitRange_def
      mergeRange_def beginScanRanges_def endScanRanges_def split: option.splits)

lemma applyEvents_total:
  "scan_ok rda \<Longrightarrow> \<exists>rda'. applyEvents es rda = Inr rda' \<and> scan_ok rda'"
proof (induction es arbitrary: rda)
  case Nil
  then show ?case by simp
next
  case (Cons e es)
  from scan_ok_applyEvent [OF Cons.prems, of e]
  obtain r where r: "applyEvent e rda = Inr r" "scan_ok r" by blast
  from Cons.IH [OF r(2)] r(1) show ?case by simp
qed

lemma betweenBeginAndEnd_Cons:
  "betweenBeginAndEnd (e # es) = ((e = BeginScan \<and> EndScan \<notin> set es) \<or> betweenBeginAndEnd es)"
  by (cases e) simp_all

lemma isScanning_applyEvents:
  "applyEvents es rda = Inr rda' \<Longrightarrow>
   isScanning rda' = (betweenBeginAndEnd es \<or> (isScanning rda \<and> EndScan \<notin> set es))"
proof (induction es arbitrary: rda)
  case Nil
  then show ?case by simp
next
  case (Cons e es)
  then obtain r where r: "applyEvent e rda = Inr r" and rest: "applyEvents es r = Inr rda'"
    by (auto split: sum.splits)
  have "isScanning rda' = (betweenBeginAndEnd es \<or> (isScanning r \<and> EndScan \<notin> set es))"
    by (rule Cons.IH [OF rest])
  with isScanning_applyEvent [OF r] show ?case
    by (auto simp: betweenBeginAndEnd_Cons)
qed

lemma scan_ok_idle: "\<not> isScanning rda \<Longrightarrow> scan_ok rda"
  by (simp add: scan_ok_def)

text \<open>
  C3: \<^verbatim>\<open>beginScanRanges\<close> sets the scan flag, resets the statistics and the range count to
  zero and installs a fresh, empty seen-set, in every state; \<^verbatim>\<open>endScanRanges\<close> clears the
  flag and sets the seen-set to nil. Hence every sequence of events applied to an idle
  accumulator runs to its end, and afterwards the flag is set exactly when the sequence
  is between a \<^verbatim>\<open>BeginScan\<close> and its \<^verbatim>\<open>EndScan\<close>.
\<close>

theorem scan_mode_between_begin_and_end:
  "(\<not> isScanning rda0 \<longrightarrow>
      (\<exists>rda'. applyEvents es rda0 = Inr rda' \<and> isScanning rda' = betweenBeginAndEnd es))
   \<and> beginScanRanges rda =
       rda\<lparr>isScanning := True, stats := MVCCStats_zero, rangeCount := 0,
           seenScan := Some Map.empty\<rparr>
   \<and> isScanning (beginScanRanges rda) \<and> stats (beginScanRanges rda) = 0
   \<and> rangeCount (beginScanRanges rda) = 0 \<and> (\<forall>i. \<not> seen (beginScanRanges rda) i)
   \<and> endScanRanges rda = rda\<lparr>isScanning := False, seenScan := None\<rparr>
   \<and> \<not> isScanning (endScanRanges rda) \<and> seenScan (endScanRanges rda) = None"
proof -
  have "\<exists>rda'. applyEvents es rda0 = Inr rda' \<and> isScanning rda' = betweenBeginAndEnd es"
    if idle: "\<not> isScanning rda0"
  proof -
    from applyEvents_total [OF scan_ok_idle [OF idle], of es]
    obtain r where r: "applyEvents es rda0 = Inr r" by blast
    from isScanning_applyEvents [OF r] idle r show ?thesis by simp
  qed
  then show ?thesis
    by (simp add: beginScanRanges_def endScanRanges_def MVCCStats_zero_def seen_def)
qed

theorem scan_mode_between_begin_and_end_witness:
  "\<not> isScanning (zero_rangeDataAccumulator :: int rangeDataAccumulator)
   \<and> betweenBeginAndEnd [BeginScan, AddRange 1 (10::int), EndScan, BeginScan, UpdateRange 1 5]
   \<and> \<not> betweenBeginAndEnd [BeginScan, AddRange 1 (10::int), EndScan, UpdateRange 1 5]
   \<and> (\<exists>rda'. applyEvents [BeginScan, AddRange 1 10, EndScan, BeginScan, UpdateRange 1 5]
               (zero_rangeDataAccumulator :: int rangeDataAccumulator) = Inr rda'
             \<and> isScanning rda')
   \<and> (\<exists>rda'. applyEvents [BeginScan, AddRange 1 10, EndScan, UpdateRange 1 5]
               (zero_rangeDataAccumulator :: int rangeDataAccumulator) = Inr rda'
             \<and> \<not> isScanning rda')"
  using
    scan_mode_between_begin_and_end
      [of "zero_rangeDataAccumulator :: int rangeDataAccumulator"
          "[BeginScan, AddRange 1 10, EndScan, BeginScan, UpdateRange 1 5]", THEN conjunct1]
    scan_mode_between_begin_and_end
      [of "zero_rangeDataAccumulator :: int rangeDataAccumulator"
          "[BeginScan, AddRange 1 10, EndScan, UpdateRange 1 5]", THEN conjunct1]
  by (simp add: zero_rangeDataAccumulator_def del: applyEvents.simps)

text \<open>
  C10: nothing guards the range count against becoming negative. \<^verbatim>\<open>mergeRange\<close> and
  \<^verbatim>\<open>removeRange\<close> decrement it in every state, a single \<^verbatim>\<open>MergeRange\<close> (or
  \<^verbatim>\<open>RemoveRange\<close>) on a freshly created accumulator leaves the count at -1, and no
  sequence of events on a fresh accumulator ever stops with a panic, so nothing detects or
  prevents it.
\<close>

theorem rangeCount_unguarded:
  "applyEvents [MergeRange] (zero_rangeDataAccumulator :: 's::ab_group_add rangeDataAccumulator)
     = Inr \<lparr>stats = 0, rangeCount = - 1, isScanning = False, seenScan = None\<rparr>
   \<and> sint (rangeCount (mergeRange (zero_rangeDataAccumulator :: 's rangeDataAccumulator))) = - 1
   \<and> sint (rangeCount (removeRange s (zero_rangeDataAccumulator :: 's rangeDataAccumulator))) = - 1
   \<and> (\<forall>rda :: ('s, 'z) rangeDataAccumulator_scheme.
         rangeCount (mergeRange rda) = rangeCount rda - 1
         \<and> rangeCount (removeRange s rda) = rangeCount rda - 1)
   \<and> (\<forall>es. \<exists>rda'. applyEvents es (zero_rangeDataAccumulator :: 's rangeDataAccumulator) = Inr rda')"
proof -
  have "scan_ok (zero_rangeDataAccumulator :: 's rangeDataAccumulator)"
    by (simp add: scan_ok_def zero_rangeDataAccumulator_def)
  then have "\<forall>es. \<exists>rda'. applyEvents es (zero_rangeDataAccumulator :: 's rangeDataAccumulator) = Inr rda'"
    using applyEvents_total by blast
  then show ?thesis
    by (simp add: zero_rangeDataAccumulator_def mergeRange_def removeRange_def MVCCStats_zero_def)
qed

section \<open>Properties of the node monitor\<close>

subsection \<open>Looking a store up, creating it on a miss\<close>

lemma update_absent:
  "map_of al k = None \<Longrightarrow> AList.update k v al = al @ [(k, v)]"
  by (induction al) (auto split: if_splits)

lemma GetStoreMonitor_locked_hit:
  "map_of (stores nsm) sid = Some s \<Longrightarrow> GetStoreMonitor_locked sid nsm = (s, nsm)"
  by (simp add: GetStoreMonitor_locked_def)

lemma GetStoreMonitor_locked_miss:
  "map_of (stores nsm) sid = None \<Longrightarrow>
   GetStoreMonitor_locked sid nsm =
     (length (heap nsm),
      nsm\<lparr>heap := heap nsm @ [new_StoreStatusMonitor sid],
          stores := stores nsm @ [(sid, length (heap nsm))]\<rparr>)"
  by (simp add: GetStoreMonitor_locked_def update_absent Let_def)

lemma GetStoreMonitor_hit:
  "map_of (stores nsm) sid = Some s \<Longrightarrow> GetStoreMonitor sid nsm = (s, nsm)"
  by (simp add: GetStoreMonitor_def)

lemma GetStoreMonitor_miss:
  "map_of (stores nsm) sid = None \<Longrightarrow>
   GetStoreMonitor sid nsm =
     (length (heap nsm),
      nsm\<lparr>heap := heap nsm @ [new_StoreStatusMonitor sid],
          stores := stores nsm @ [(sid, length (heap nsm))]\<rparr>)"
  by (simp add: GetStoreMonitor_def GetStoreMonitor_locked_miss)

lemma GetStoreMonitor_eq_locked: "GetStoreMonitor sid nsm = GetStoreMonitor_locked sid nsm"
  by (simp add: GetStoreMonitor_def GetStoreMonitor_locked_def split: option.splits)

lemma extends_refl: "extends nsm nsm"
  by (simp add: extends_def)

lemma extends_trans: "extends a b \<Longrightarrow> extends b c \<Longrightarrow> extends a c"
  by (auto simp: extends_def)

lemma extends_map_of:
  "extends nsm nsm' \<Longrightarrow> map_of (stores nsm) sid = Some s \<Longrightarrow> map_of (stores nsm') sid = Some s"
  by (auto simp: extends_def)

lemma registry_ok_GetStoreMonitor_locked:
  assumes "registry_ok nsm"
  shows "registry_ok (snd (GetStoreMonitor_locked sid nsm))"
proof (cases "map_of (stores nsm) sid")
  case None
  then have notin: "sid \<notin> fst ` set (stores nsm)"
    by (simp add: map_of_eq_None_iff)
  from assms have lt: "\<forall>e \<in> set (stores nsm). snd e < length (heap nsm)"
    by (simp add: registry_ok_def list_all_iff)
  then have fresh: "length (heap nsm) \<notin> snd ` set (stores nsm)" by auto
  from assms notin fresh lt show ?thesis
    by (auto simp: GetStoreMonitor_locked_miss [OF None] registry_ok_def list_all_iff less_Suc_eq)
next
  case (Some s)
  with assms show ?thesis by (simp add: GetStoreMonitor_locked_hit)
qed

lemma extends_GetStoreMonitor_locked: "extends nsm (snd (GetStoreMonitor_locked sid nsm))"
  by (cases "map_of (stores nsm) sid")
    (simp_all add: GetStoreMonitor_locked_miss GetStoreMonitor_locked_hit extends_def)

lemma map_of_snoc_absent:
  "map_of al k = None \<Longrightarrow> map_of (al @ [(k, v)]) k = Some v"
  by (induction al) auto

lemma GetStoreMonitor_locked_registered:
  "map_of (stores (snd (GetStoreMonitor_locked sid nsm))) sid = Some (fst (GetStoreMonitor_locked sid nsm))"
proof (cases "map_of (stores nsm) sid")
  case None
  then show ?thesis
    by (simp add: GetStoreMonitor_locked_miss map_of_snoc_absent del: map_of_append)
next
  case (Some s)
  then show ?thesis by (simp add: GetStoreMonitor_locked_hit)
qed

lemma GetStoreMonitor_locked_allocated:
  "registry_ok nsm \<Longrightarrow>
   fst (GetStoreMonitor_locked sid nsm) < length (heap (snd (GetStoreMonitor_locked sid nsm)))"
  by (cases "map_of (stores nsm) sid")
    (auto simp: GetStoreMonitor_locked_miss GetStoreMonitor_locked_hit registry_ok_def
      list_all_iff dest!: map_of_SomeD)


text \<open>Method calls through a registered pointer keep the registry and the size of the heap.\<close>

lemma call_method_Inr:
  assumes "call_method s method nsm = Inr nsm'"
  shows "stores nsm' = stores nsm \<and> length (heap nsm') = length (heap nsm)"
  using assms by (auto simp: call_method_def split: if_splits sum.splits)

lemma registry_ok_cong:
  "stores nsm' = stores nsm \<Longrightarrow> length (heap nsm') = length (heap nsm) \<Longrightarrow>
   registry_ok nsm \<Longrightarrow> registry_ok nsm'"
  by (simp add: registry_ok_def)

lemma extends_cong:
  "stores nsm' = stores nsm \<Longrightarrow> length (heap nsm') = length (heap nsm) \<Longrightarrow>
   extends nsm0 nsm \<Longrightarrow> extends nsm0 nsm'"
  by (simp add: extends_def)

lemma handler_step:
  assumes ok: "registry_ok nsm"
    and run: "(case GetStoreMonitor sid nsm of (s, nsm1) \<Rightarrow> call_method s method nsm1) = Inr nsm'"
  shows "registry_ok nsm' \<and> extends nsm nsm'"
proof -
  obtain s nsm1 where g: "GetStoreMonitor_locked sid nsm = (s, nsm1)"
    by (cases "GetStoreMonitor_locked sid nsm")
  from run g have c: "call_method s method nsm1 = Inr nsm'"
    by (simp add: GetStoreMonitor_eq_locked)
  from registry_ok_GetStoreMonitor_locked [OF ok, of sid] g have ok1: "registry_ok nsm1" by simp
  from extends_GetStoreMonitor_locked [of nsm sid] g have ex1: "extends nsm nsm1" by simp
  from call_method_Inr [OF c] have same: "stores nsm' = stores nsm1"
    "length (heap nsm') = length (heap nsm1)" by simp_all
  from registry_ok_cong [OF same ok1] extends_cong [OF same ex1] show ?thesis by simp
qed

subsection \<open>Handlers and enumeration keep the registry\<close>

lemma call_method_cong:
  "(\<And>m. f m = g m) \<Longrightarrow> call_method s f nsm = call_method s g nsm"
  by (simp add: call_method_def)

lemma dispatch_RangeEvent:
  "dispatch (RangeEvent sid e) nsm =
     (case GetStoreMonitor sid nsm of (s, n) \<Rightarrow> call_method s (applyEvent e) n)"
proof -
  obtain s n where g: "GetStoreMonitor sid nsm = (s, n)" by (cases "GetStoreMonitor sid nsm")
  show ?thesis
    by (cases e)
      (simp_all add: g OnAddRange_def OnUpdateRange_def OnRemoveRange_def OnSplitRange_def
        OnMergeRange_def OnBeginScanRanges_def OnEndScanRanges_def cong: call_method_cong)
qed

lemma dispatch_step:
  assumes ok: "registry_ok nsm" and run: "dispatch ev nsm = Inr nsm'"
  shows "registry_ok nsm' \<and> extends nsm nsm'"
proof (cases ev)
  case (RangeEvent sid e)
  with run have
    "(case GetStoreMonitor sid nsm of (s, n) \<Rightarrow> call_method s (applyEvent e) n) = Inr nsm'"
    by (simp add: dispatch_RangeEvent)
  then show ?thesis by (rule handler_step [OF ok])
next
  case (StartStoreEvent sid)
  with run have "nsm' = snd (GetStoreMonitor_locked sid nsm)"
    by (simp add: OnStartStore_def GetStoreMonitor_eq_locked split: prod.splits)
  with registry_ok_GetStoreMonitor_locked [OF ok, of sid]
    extends_GetStoreMonitor_locked [of nsm sid]
  show ?thesis by simp
qed

text \<open>The loop of \<^verbatim>\<open>VisitStoreMonitors\<close>.\<close>

lemma visitEntries_length:
  "visitEntries visitor es h v = Inr (h', v') \<Longrightarrow> length h' = length h"
proof (induction es arbitrary: h v)
  case Nil
  then show ?case by simp
next
  case (Cons e es)
  obtain k a where e: "e = (k, a)" by (cases e)
  obtain m v1 where f: "visitor a (h ! a) v = (m, v1)" by (cases "visitor a (h ! a) v")
  from Cons.prems e f have "visitEntries visitor es (h[a := m]) v1 = Inr (h', v')"
    by (simp split: if_splits)
  from Cons.IH [OF this] show ?case by simp
qed

lemma visitEntries_total:
  "list_all (\<lambda>e. snd e < length h) es \<Longrightarrow> \<exists>h' v'. visitEntries visitor es h v = Inr (h', v')"
proof (induction es arbitrary: h v)
  case Nil
  then show ?case by simp
next
  case (Cons e es)
  obtain k a where e: "e = (k, a)" by (cases e)
  obtain m v1 where f: "visitor a (h ! a) v = (m, v1)" by (cases "visitor a (h ! a) v")
  from Cons.prems have "list_all (\<lambda>e. snd e < length (h[a := m])) es" by simp
  from Cons.IH [OF this, of v1] Cons.prems e f show ?case by simp
qed

lemma VisitStoreMonitors_in_Inr:
  assumes "VisitStoreMonitors_in es visitor nsm v = Inr (nsm', v')"
  shows "stores nsm' = stores nsm \<and> length (heap nsm') = length (heap nsm)"
  using assms
  by (auto simp: VisitStoreMonitors_in_def split: sum.splits dest: visitEntries_length)

lemma VisitStoreMonitors_in_total:
  assumes "registry_ok nsm" and "set es = set (stores nsm)"
  shows "\<exists>nsm' v'. VisitStoreMonitors_in es visitor nsm v = Inr (nsm', v')"
proof -
  from assms have "list_all (\<lambda>e. snd e < length (heap nsm)) es"
    by (simp add: registry_ok_def list_all_iff)
  from visitEntries_total [OF this, of visitor v] show ?thesis
    by (auto simp: VisitStoreMonitors_in_def)
qed

lemma VisitStoreMonitors_Inr:
  assumes "VisitStoreMonitors visitor nsm v = Inr (nsm', v')"
  shows "stores nsm' = stores nsm \<and> length (heap nsm') = length (heap nsm)"
  using assms unfolding VisitStoreMonitors_def by (rule VisitStoreMonitors_in_Inr)

lemma VisitStoreMonitors_total:
  "registry_ok nsm \<Longrightarrow> \<exists>nsm' v'. VisitStoreMonitors visitor nsm v = Inr (nsm', v')"
  unfolding VisitStoreMonitors_def by (rule VisitStoreMonitors_in_total) simp_all

lemma nodeStep_ok:
  assumes "registry_ok nsm" and "nodeStep op nsm = Inr nsm'"
  shows "registry_ok nsm' \<and> extends nsm nsm'"
proof (cases op)
  case (Deliver ev)
  with assms dispatch_step show ?thesis by simp
next
  case (Get sid)
  with assms registry_ok_GetStoreMonitor_locked [of nsm sid]
    extends_GetStoreMonitor_locked [of nsm sid]
  show ?thesis by (auto simp: GetStoreMonitor_eq_locked)
next
  case (LockedSection sid)
  with assms registry_ok_GetStoreMonitor_locked [of nsm sid]
    extends_GetStoreMonitor_locked [of nsm sid]
  show ?thesis by auto
next
  case (Visit f)
  with assms obtain u where "VisitStoreMonitors (\<lambda>a m u. (f a m, u)) nsm () = Inr (nsm', u)"
    by (auto split: sum.splits)
  from VisitStoreMonitors_Inr [OF this] assms(1) show ?thesis
    by (auto intro: registry_ok_cong simp: extends_def)
qed

lemma nodeRun_ok:
  "registry_ok nsm \<Longrightarrow> nodeRun ops nsm = Inr nsm' \<Longrightarrow> registry_ok nsm' \<and> extends nsm nsm'"
proof (induction ops arbitrary: nsm)
  case Nil
  then show ?case by (simp add: extends_refl)
next
  case (Cons op ops)
  from Cons.prems(2) obtain nsm1 where
    step: "nodeStep op nsm = Inr nsm1" and rest: "nodeRun ops nsm1 = Inr nsm'"
    by (auto split: sum.splits)
  from nodeStep_ok [OF Cons.prems(1) step] have ok1: "registry_ok nsm1" and ex1: "extends nsm nsm1"
    by simp_all
  from Cons.IH [OF ok1 rest] ex1 show ?case
    by (auto intro: extends_trans)
qed

lemma registry_ok_New: "registry_ok NewNodeStatusMonitor"
  by (simp add: registry_ok_def NewNodeStatusMonitor_def)

subsection \<open>No panics\<close>

lemma heap_ok_GetStoreMonitor_locked:
  "heap_ok nsm \<Longrightarrow> heap_ok (snd (GetStoreMonitor_locked sid nsm))"
  by (cases "map_of (stores nsm) sid")
    (simp_all add: GetStoreMonitor_locked_miss GetStoreMonitor_locked_hit heap_ok_def
      new_StoreStatusMonitor_def scan_ok_def)

lemma call_method_total:
  assumes "s < length (heap nsm)" and "heap_ok nsm"
    and "\<And>m. scan_ok m \<Longrightarrow> \<exists>m'. method m = Inr m' \<and> scan_ok m'"
  shows "\<exists>nsm'. call_method s method nsm = Inr nsm' \<and> heap_ok nsm'"
proof -
  from assms(1,2) have "scan_ok (heap nsm ! s)"
    by (simp add: heap_ok_def list_all_length)
  from assms(3) [OF this] obtain m' where m': "method (heap nsm ! s) = Inr m'" "scan_ok m'"
    by blast
  from assms(2) m'(2) have "list_all scan_ok ((heap nsm)[s := m'])"
    by (auto simp: heap_ok_def list_all_iff dest: set_update_subset_insert [THEN subsetD])
  with assms(1) m'(1) show ?thesis
    by (simp add: call_method_def heap_ok_def)
qed

lemma dispatch_total:
  assumes ok: "registry_ok nsm" and h: "heap_ok nsm"
  shows "\<exists>nsm'. dispatch ev nsm = Inr nsm' \<and> heap_ok nsm'"
proof (cases ev)
  case (RangeEvent sid e)
  obtain s n where g: "GetStoreMonitor_locked sid nsm = (s, n)"
    by (cases "GetStoreMonitor_locked sid nsm")
  from GetStoreMonitor_locked_allocated [OF ok, of sid] g have lt: "s < length (heap n)" by simp
  from heap_ok_GetStoreMonitor_locked [OF h, of sid] g have hn: "heap_ok n" by simp
  from call_method_total [OF lt hn, of "applyEvent e"] scan_ok_applyEvent
  have "\<exists>nsm'. call_method s (applyEvent e) n = Inr nsm' \<and> heap_ok nsm'" by blast
  with RangeEvent g show ?thesis
    by (simp add: dispatch_RangeEvent GetStoreMonitor_eq_locked)
next
  case (StartStoreEvent sid)
  with heap_ok_GetStoreMonitor_locked [OF h, of sid] show ?thesis
    by (auto simp: OnStartStore_def GetStoreMonitor_eq_locked split: prod.splits)
qed

lemma visitEntries_scan_ok:
  assumes "\<And>a m v. scan_ok m \<Longrightarrow> scan_ok (fst (visitor a m v))"
  shows "list_all scan_ok h \<Longrightarrow> visitEntries visitor es h v = Inr (h', v') \<Longrightarrow>
         list_all scan_ok h'"
proof (induction es arbitrary: h v)
  case Nil
  then show ?case by simp
next
  case (Cons e es)
  obtain k a where e: "e = (k, a)" by (cases e)
  obtain m v1 where f: "visitor a (h ! a) v = (m, v1)" by (cases "visitor a (h ! a) v")
  from Cons.prems(2) e f have lt: "a < length h"
    and rest: "visitEntries visitor es (h[a := m]) v1 = Inr (h', v')"
    by (simp_all split: if_splits)
  from Cons.prems(1) lt have "scan_ok (h ! a)" by (simp add: list_all_length)
  from assms [OF this, of a v] f have "scan_ok m" by simp
  with Cons.prems(1) have "list_all scan_ok (h[a := m])"
    by (auto simp: list_all_iff dest: set_update_subset_insert [THEN subsetD])
  from Cons.IH [OF this rest] show ?case .
qed

lemma nodeStep_total:
  assumes ok: "registry_ok nsm" and h: "heap_ok nsm" and op: "op_ok op"
  shows "\<exists>nsm'. nodeStep op nsm = Inr nsm' \<and> heap_ok nsm'"
proof (cases op)
  case (Deliver ev)
  with dispatch_total [OF ok h, of ev] show ?thesis by simp
next
  case (Get sid)
  with heap_ok_GetStoreMonitor_locked [OF h, of sid] show ?thesis
    by (simp add: GetStoreMonitor_eq_locked)
next
  case (LockedSection sid)
  with heap_ok_GetStoreMonitor_locked [OF h, of sid] show ?thesis by simp
next
  case (Visit f)
  from VisitStoreMonitors_total [OF ok, of "\<lambda>a m u. (f a m, u)" "()"]
  obtain nsm' u where v: "VisitStoreMonitors (\<lambda>a m u. (f a m, u)) nsm () = Inr (nsm', u)"
    by blast
  then have ve: "visitEntries (\<lambda>a m u. (f a m, u)) (stores nsm) (heap nsm) () = Inr (heap nsm', u)"
    by (auto simp: VisitStoreMonitors_def VisitStoreMonitors_in_def split: sum.splits)
  from op Visit have keeps: "\<And>a m (v::unit). scan_ok m \<Longrightarrow> scan_ok (fst (f a m, v))"
    by (simp add: visitor_keeps_scan_ok_def)
  from visitEntries_scan_ok [of "\<lambda>a m u. (f a m, u)", OF keeps _ ve] h
  have "heap_ok nsm'" by (simp add: heap_ok_def)
  with v Visit show ?thesis by simp
qed

lemma nodeRun_total:
  "registry_ok nsm \<Longrightarrow> heap_ok nsm \<Longrightarrow> list_all op_ok ops \<Longrightarrow>
   \<exists>nsm'. nodeRun ops nsm = Inr nsm'"
proof (induction ops arbitrary: nsm)
  case Nil
  then show ?case by simp
next
  case (Cons op ops)
  from Cons.prems(3) have op: "op_ok op" and ops: "list_all op_ok ops" by simp_all
  from nodeStep_total [OF Cons.prems(1,2) op]
  obtain nsm1 where step: "nodeStep op nsm = Inr nsm1" and h1: "heap_ok nsm1" by blast
  from nodeStep_ok [OF Cons.prems(1) step] have ok1: "registry_ok nsm1" by simp
  from Cons.IH [OF ok1 h1 ops] step show ?case by simp
qed

lemma heap_ok_New: "heap_ok NewNodeStatusMonitor"
  by (simp add: heap_ok_def NewNodeStatusMonitor_def)

subsection \<open>What an enumeration does\<close>

lemma visitEntries_logged:
  "visitEntries (logged visitor) es h (v, log) =
     (case visitEntries visitor es h v of
        Inl p \<Rightarrow> Inl p
      | Inr (h', v') \<Rightarrow> Inr (h', (v', log @ map snd es)))"
proof (induction es arbitrary: h v log)
  case Nil
  then show ?case by simp
next
  case (Cons e es)
  obtain k a where e: "e = (k, a)" by (cases e)
  obtain m v1 where f: "visitor a (h ! a) v = (m, v1)" by (cases "visitor a (h ! a) v")
  have step: "logged visitor a (h ! a) (v, log) = (m, (v1, log @ [a]))"
    by (simp add: logged_def f)
  show ?case
    by (simp add: e f step Cons.IH split: sum.splits)
qed

lemma visitEntries_untouched:
  "visitEntries visitor es h v = Inr (h', v') \<Longrightarrow> a \<notin> snd ` set es \<Longrightarrow> h' ! a = h ! a"
proof (induction es arbitrary: h v)
  case Nil
  then show ?case by simp
next
  case (Cons e es)
  obtain k a0 where e: "e = (k, a0)" by (cases e)
  obtain m v1 where f: "visitor a0 (h ! a0) v = (m, v1)" by (cases "visitor a0 (h ! a0) v")
  from Cons.prems e f have rest: "visitEntries visitor es (h[a0 := m]) v1 = Inr (h', v')"
    and ne: "a \<noteq> a0" and out: "a \<notin> snd ` set es"
    by (auto split: if_splits)
  from Cons.IH [OF rest out] ne show ?case by simp
qed

lemma visitEntries_readonly:
  assumes "\<And>a m u. fst (visitor a m u) = m"
  shows "visitEntries visitor es h v = Inr (h', v') \<Longrightarrow> h' = h"
proof (induction es arbitrary: h v)
  case Nil
  then show ?case by simp
next
  case (Cons e es)
  obtain k a where e: "e = (k, a)" by (cases e)
  obtain m v1 where f: "visitor a (h ! a) v = (m, v1)" by (cases "visitor a (h ! a) v")
  from assms [of a "h ! a" v] f have m: "m = h ! a" by simp
  from Cons.prems e f m have "visitEntries visitor es h v1 = Inr (h', v')"
    by (simp split: if_splits)
  from Cons.IH [OF this] show ?case .
qed

lemma visitEntries_once:
  "distinct (map snd es) \<Longrightarrow> visitEntries visitor es h v = Inr (h', v') \<Longrightarrow>
   a \<in> snd ` set es \<Longrightarrow> \<exists>u. h' ! a = fst (visitor a (h ! a) u)"
proof (induction es arbitrary: h v)
  case Nil
  then show ?case by simp
next
  case (Cons e es)
  obtain k a0 where e: "e = (k, a0)" by (cases e)
  obtain m v1 where f: "visitor a0 (h ! a0) v = (m, v1)" by (cases "visitor a0 (h ! a0) v")
  from Cons.prems(2) e f have lt: "a0 < length h"
    and rest: "visitEntries visitor es (h[a0 := m]) v1 = Inr (h', v')"
    by (simp_all split: if_splits)
  from Cons.prems(1) e have fresh: "a0 \<notin> snd ` set es" and d: "distinct (map snd es)"
    by simp_all
  show ?case
  proof (cases "a = a0")
    case True
    from visitEntries_untouched [OF rest fresh] lt have "h' ! a0 = m" by simp
    with True f show ?thesis by (intro exI [of _ v]) simp
  next
    case False
    with Cons.prems(3) e have "a \<in> snd ` set es" by auto
    from Cons.IH [OF d rest this] False show ?thesis by simp
  qed
qed

lemma count_list_distinct:
  "distinct xs \<Longrightarrow> count_list xs a = (if a \<in> set xs then 1 else 0)"
  by (induction xs) auto

lemma VisitStoreMonitors_in_logged:
  "VisitStoreMonitors_in es (logged visitor) nsm (v, log) =
     (case VisitStoreMonitors_in es visitor nsm v of
        Inl p \<Rightarrow> Inl p
      | Inr (nsm', v') \<Rightarrow> Inr (nsm', (v', log @ map snd es)))"
  by (simp add: VisitStoreMonitors_in_def visitEntries_logged split: sum.splits)

lemma visit_each_entry_once:
  assumes ok: "registry_ok nsm" and perm: "mset es = mset (stores nsm)"
  shows "\<exists>nsm' v' log.
       VisitStoreMonitors_in es (logged visitor) nsm (v, []) = Inr (nsm', (v', log))
     \<and> VisitStoreMonitors_in es visitor nsm v = Inr (nsm', v')
     \<and> (\<forall>a. count_list log a = (if a \<in> snd ` set (stores nsm) then 1 else 0))
     \<and> stores nsm' = stores nsm \<and> length (heap nsm') = length (heap nsm)
     \<and> (\<forall>a. a \<notin> snd ` set (stores nsm) \<longrightarrow> heap nsm' ! a = heap nsm ! a)
     \<and> (\<forall>a \<in> snd ` set (stores nsm). \<exists>u. heap nsm' ! a = fst (visitor a (heap nsm ! a) u))
     \<and> ((\<forall>a m u. fst (visitor a m u) = m) \<longrightarrow> nsm' = nsm)"
proof -
  from perm have sets: "set es = set (stores nsm)" by (rule mset_eq_setD)
  from perm have "mset (map snd es) = mset (map snd (stores nsm))" by simp
  then have "distinct (map snd es) = distinct (map snd (stores nsm))"
    by (rule mset_eq_imp_distinct_iff)
  with ok have d: "distinct (map snd es)" by (simp add: registry_ok_def)
  from VisitStoreMonitors_in_total [OF ok sets, of visitor v]
  obtain nsm' v' where run: "VisitStoreMonitors_in es visitor nsm v = Inr (nsm', v')" by blast
  then have ve: "visitEntries visitor es (heap nsm) v = Inr (heap nsm', v')"
    and shape: "nsm' = nsm\<lparr>heap := heap nsm'\<rparr>"
    by (auto simp: VisitStoreMonitors_in_def split: sum.splits)
  have logd: "VisitStoreMonitors_in es (logged visitor) nsm (v, []) =
      Inr (nsm', (v', map snd es))"
    by (simp add: VisitStoreMonitors_in_logged run)
  have cnt: "\<forall>a. count_list (map snd es) a = (if a \<in> snd ` set (stores nsm) then 1 else 0)"
    using count_list_distinct [OF d] sets by simp
  have untouched: "\<forall>a. a \<notin> snd ` set (stores nsm) \<longrightarrow> heap nsm' ! a = heap nsm ! a"
    using visitEntries_untouched [OF ve] sets by simp
  have once: "\<forall>a \<in> snd ` set (stores nsm). \<exists>u. heap nsm' ! a = fst (visitor a (heap nsm ! a) u)"
    using visitEntries_once [OF d ve] sets by simp
  have ro: "(\<forall>a m u. fst (visitor a m u) = m) \<longrightarrow> nsm' = nsm"
  proof
    assume "\<forall>a m u. fst (visitor a m u) = m"
    then have "heap nsm' = heap nsm" using visitEntries_readonly [OF _ ve] by blast
    with shape show "nsm' = nsm" by simp
  qed
  from VisitStoreMonitors_in_Inr [OF run] logd run cnt untouched once ro show ?thesis
    by blast
qed

lemma three_stores:
  assumes "A \<noteq> B" "A \<noteq> C" "B \<noteq> C"
  shows "nodeRun [Get A, Get B, Get C] NewNodeStatusMonitor =
      Inr \<lparr>stores = [(A, 0), (B, 1), (C, 2)],
           heap = [new_StoreStatusMonitor A, new_StoreStatusMonitor B, new_StoreStatusMonitor C]\<rparr>"
  using assms
  by (simp add: NewNodeStatusMonitor_def GetStoreMonitor_def GetStoreMonitor_locked_def)

lemma three_stores_visit:
  "VisitStoreMonitors (\<lambda>a m ids. (m, ids @ [ID m]))
     \<lparr>stores = [(A, 0), (B, 1), (C, 2)],
      heap = [new_StoreStatusMonitor A, new_StoreStatusMonitor B, new_StoreStatusMonitor C]\<rparr> []
   = Inr (\<lparr>stores = [(A, 0), (B, 1), (C, 2)],
           heap = [new_StoreStatusMonitor A, new_StoreStatusMonitor B, new_StoreStatusMonitor C]\<rparr>,
          [A, B, C])"
  by (simp add: VisitStoreMonitors_def VisitStoreMonitors_in_def new_StoreStatusMonitor_def)

subsection \<open>The registry over sequences of operations\<close>

lemma reachable_registry_ok:
  "nodeRun ops NewNodeStatusMonitor = Inr nsm \<Longrightarrow> registry_ok nsm"
  using nodeRun_ok [OF registry_ok_New] by blast

lemma entries_kept:
  assumes "registry_ok nsm1" and "nodeRun ops nsm1 = Inr nsm2"
    and "map_of (stores nsm1) k = Some a"
  shows "map_of (stores nsm2) k = Some a"
  using nodeRun_ok [OF assms(1,2)] assms(3) by (blast intro: extends_map_of)

lemma same_instance_again:
  assumes ok: "registry_ok nsm1"
    and run: "nodeRun ops (snd (GetStoreMonitor sid nsm1)) = Inr nsm2"
  shows "GetStoreMonitor sid nsm2 = (fst (GetStoreMonitor sid nsm1), nsm2)"
proof -
  have ok': "registry_ok (snd (GetStoreMonitor sid nsm1))"
    using registry_ok_GetStoreMonitor_locked [OF ok, of sid]
    by (simp add: GetStoreMonitor_eq_locked)
  have "map_of (stores (snd (GetStoreMonitor sid nsm1))) sid = Some (fst (GetStoreMonitor sid nsm1))"
    using GetStoreMonitor_locked_registered [of sid nsm1]
    by (simp add: GetStoreMonitor_eq_locked)
  from entries_kept [OF ok' run this] show ?thesis
    by (rule GetStoreMonitor_hit)
qed

text \<open>
  C7: \<^verbatim>\<open>GetStoreMonitor\<close> returns the registered monitor of a store and leaves the node
  monitor as it is; for a store that is not registered it allocates one monitor, created
  idle (zero statistics, zero ranges, not scanning), registers it and returns it. The
  write-locked section run on its own does the same. Hence in every state that a sequence
  of operations reaches from \<^verbatim>\<open>NewNodeStatusMonitor\<close> no identifier has two entries and
  no two identifiers share an instance; the entries of a state are still there, unchanged,
  after any further operations; and a second \<^verbatim>\<open>GetStoreMonitor\<close> for the same store,
  after any operations in between, returns the identical instance and changes nothing.
  The sequences run to their end for all visitors that keep a scanning monitor's seen-set
  allocated.
\<close>

theorem GetStoreMonitor_one_instance_per_store:
  "(map_of (stores nsm) sid = Some s \<longrightarrow> GetStoreMonitor sid nsm = (s, nsm))
   \<and> (map_of (stores nsm) sid = None \<longrightarrow>
        GetStoreMonitor sid nsm =
          (length (heap nsm),
           nsm\<lparr>heap := heap nsm @
                  [\<lparr>stats = 0, rangeCount = 0, isScanning = False, seenScan = None, ID = sid\<rparr>],
               stores := stores nsm @ [(sid, length (heap nsm))]\<rparr>))
   \<and> GetStoreMonitor_locked sid nsm = GetStoreMonitor sid nsm
   \<and> (nodeRun ops NewNodeStatusMonitor = Inr nsm1 \<longrightarrow>
        registry_ok nsm1
        \<and> (\<forall>ops' nsm2. nodeRun ops' nsm1 = Inr nsm2 \<longrightarrow>
              (\<forall>k a. map_of (stores nsm1) k = Some a \<longrightarrow> map_of (stores nsm2) k = Some a))
        \<and> (\<forall>ops' nsm2. nodeRun ops' (snd (GetStoreMonitor sid nsm1)) = Inr nsm2 \<longrightarrow>
              GetStoreMonitor sid nsm2 = (fst (GetStoreMonitor sid nsm1), nsm2)))
   \<and> (list_all op_ok ops \<longrightarrow> (\<exists>nsm1. nodeRun ops NewNodeStatusMonitor = Inr nsm1))"
proof -
  have hit: "map_of (stores nsm) sid = Some s \<longrightarrow> GetStoreMonitor sid nsm = (s, nsm)"
    by (simp add: GetStoreMonitor_hit)
  have miss: "map_of (stores nsm) sid = None \<longrightarrow>
        GetStoreMonitor sid nsm =
          (length (heap nsm),
           nsm\<lparr>heap := heap nsm @
                  [\<lparr>stats = 0, rangeCount = 0, isScanning = False, seenScan = None, ID = sid\<rparr>],
               stores := stores nsm @ [(sid, length (heap nsm))]\<rparr>)"
    by (simp add: GetStoreMonitor_miss new_StoreStatusMonitor_def MVCCStats_zero_def)
  have reach: "nodeRun ops NewNodeStatusMonitor = Inr nsm1 \<longrightarrow>
        registry_ok nsm1
        \<and> (\<forall>ops' nsm2. nodeRun ops' nsm1 = Inr nsm2 \<longrightarrow>
              (\<forall>k a. map_of (stores nsm1) k = Some a \<longrightarrow> map_of (stores nsm2) k = Some a))
        \<and> (\<forall>ops' nsm2. nodeRun ops' (snd (GetStoreMonitor sid nsm1)) = Inr nsm2 \<longrightarrow>
              GetStoreMonitor sid nsm2 = (fst (GetStoreMonitor sid nsm1), nsm2))"
  proof
    assume "nodeRun ops NewNodeStatusMonitor = Inr nsm1"
    then have ok: "registry_ok nsm1" by (rule reachable_registry_ok)
    from ok entries_kept [OF ok] same_instance_again [OF ok]
    show "registry_ok nsm1
        \<and> (\<forall>ops' nsm2. nodeRun ops' nsm1 = Inr nsm2 \<longrightarrow>
              (\<forall>k a. map_of (stores nsm1) k = Some a \<longrightarrow> map_of (stores nsm2) k = Some a))
        \<and> (\<forall>ops' nsm2. nodeRun ops' (snd (GetStoreMonitor sid nsm1)) = Inr nsm2 \<longrightarrow>
              GetStoreMonitor sid nsm2 = (fst (GetStoreMonitor sid nsm1), nsm2))"
      by blast
  qed
  have total: "list_all op_ok ops \<longrightarrow> (\<exists>nsm1. nodeRun ops NewNodeStatusMonitor = Inr nsm1)"
    using nodeRun_total [OF registry_ok_New heap_ok_New] by blast
  from hit miss reach total show ?thesis
    by (simp only: GetStoreMonitor_eq_locked simp_thms)
qed

theorem GetStoreMonitor_one_instance_per_store_witness:
  "map_of (stores \<lparr>stores = [(1::nat, 0)], heap = [new_StoreStatusMonitor 1 :: (nat, int) StoreStatusMonitor]\<rparr>) 1
     = Some 0
   \<and> GetStoreMonitor 1 \<lparr>stores = [(1::nat, 0)], heap = [new_StoreStatusMonitor 1 :: (nat, int) StoreStatusMonitor]\<rparr>
     = (0, \<lparr>stores = [(1, 0)], heap = [new_StoreStatusMonitor 1]\<rparr>)
   \<and> map_of (stores (NewNodeStatusMonitor :: (nat, int) NodeStatusMonitor)) 1 = None
   \<and> GetStoreMonitor 1 (NewNodeStatusMonitor :: (nat, int) NodeStatusMonitor)
     = (0, \<lparr>stores = [(1, 0)],
             heap = [\<lparr>stats = 0, rangeCount = 0, isScanning = False, seenScan = None, ID = 1\<rparr>]\<rparr>)
   \<and> nodeRun [Get 1, Deliver (RangeEvent 1 BeginScan), Get 2]
        (NewNodeStatusMonitor :: (nat, int) NodeStatusMonitor)
     = Inr \<lparr>stores = [(1, 0), (2, 1)],
            heap = [\<lparr>stats = 0, rangeCount = 0, isScanning = True, seenScan = Some Map.empty, ID = 1\<rparr>,
                    \<lparr>stats = 0, rangeCount = 0, isScanning = False, seenScan = None, ID = 2\<rparr>]\<rparr>
   \<and> registry_ok \<lparr>stores = [(1::nat, 0), (2, 1)],
            heap = [\<lparr>stats = 0::int, rangeCount = 0, isScanning = True, seenScan = Some Map.empty, ID = 1::nat\<rparr>,
                    \<lparr>stats = 0, rangeCount = 0, isScanning = False, seenScan = None, ID = 2\<rparr>]\<rparr>
   \<and> list_all op_ok [Get 1, Deliver (RangeEvent 1 BeginScan), Get (2::nat) :: (nat, int) nodeOp]"
proof -
  let ?X = "\<lparr>stores = [(1::nat, 0)], heap = [new_StoreStatusMonitor 1 :: (nat, int) StoreStatusMonitor]\<rparr>"
  let ?N = "NewNodeStatusMonitor :: (nat, int) NodeStatusMonitor"
  let ?ops = "[Get 1, Deliver (RangeEvent 1 BeginScan), Get (2::nat) :: (nat, int) nodeOp]"
  let ?Y = "\<lparr>stores = [(1::nat, 0), (2, 1)],
            heap = [\<lparr>stats = 0::int, rangeCount = 0, isScanning = True, seenScan = Some Map.empty, ID = 1::nat\<rparr>,
                    \<lparr>stats = 0, rangeCount = 0, isScanning = False, seenScan = None, ID = 2\<rparr>]\<rparr>"
  have h1: "map_of (stores ?X) 1 = Some 0" by simp
  have h2: "map_of (stores ?N) 1 = None" by (simp add: NewNodeStatusMonitor_def)
  have h3: "nodeRun ?ops ?N = Inr ?Y"
    by (simp add: NewNodeStatusMonitor_def GetStoreMonitor_def GetStoreMonitor_locked_def
        OnBeginScanRanges_def call_method_def beginScanRanges_def new_StoreStatusMonitor_def
        MVCCStats_zero_def)
  have h4: "list_all op_ok ?ops" by simp
  note inst = GetStoreMonitor_one_instance_per_store [of _ _ _ ?ops ?Y]
  from inst [of ?X 1 0, THEN conjunct1, THEN mp, OF h1]
    inst [of ?N 1 0, THEN conjunct2, THEN conjunct1, THEN mp, OF h2]
    inst [of ?N 1 0, THEN conjunct2, THEN conjunct2, THEN conjunct2, THEN conjunct1, THEN mp, OF h3]
    h1 h2 h3 h4
  show ?thesis by (simp add: NewNodeStatusMonitor_def)
qed

text \<open>
  C8: on a well-formed registry, in particular on every state reached from
  \<^verbatim>\<open>NewNodeStatusMonitor\<close>, and in whatever order \<open>es\<close> the entries are enumerated,
  \<^verbatim>\<open>VisitStoreMonitors\<close> returns, and it calls the visitor exactly once with each
  registered monitor and with nothing else, as the log of an instrumented visitor shows. It leaves the registry and the number of allocated monitors
  as they are; a monitor that is not registered is untouched, a registered one is what
  one call of the visitor made of it, and with a visitor that writes nothing the node
  monitor is unchanged. After registering three distinct stores, the identifiers visited
  are these three, each once.
\<close>

theorem VisitStoreMonitors_each_once:
  "((registry_ok nsm \<or> (\<exists>ops. nodeRun ops NewNodeStatusMonitor = Inr nsm))
      \<and> mset es = mset (stores nsm) \<longrightarrow>
      (\<exists>nsm' v' log.
          VisitStoreMonitors_in es (logged visitor) nsm (v, []) = Inr (nsm', (v', log))
        \<and> VisitStoreMonitors_in es visitor nsm v = Inr (nsm', v')
        \<and> (\<forall>a. count_list log a = (if a \<in> snd ` set (stores nsm) then 1 else 0))
        \<and> stores nsm' = stores nsm \<and> length (heap nsm') = length (heap nsm)
        \<and> (\<forall>a. a \<notin> snd ` set (stores nsm) \<longrightarrow> heap nsm' ! a = heap nsm ! a)
        \<and> (\<forall>a \<in> snd ` set (stores nsm). \<exists>u. heap nsm' ! a = fst (visitor a (heap nsm ! a) u))
        \<and> ((\<forall>a m u. fst (visitor a m u) = m) \<longrightarrow> nsm' = nsm)))
   \<and> VisitStoreMonitors visitor nsm v = VisitStoreMonitors_in (stores nsm) visitor nsm v
   \<and> (A \<noteq> B \<and> A \<noteq> C \<and> B \<noteq> C \<longrightarrow>
        (\<exists>nsm3 ids. nodeRun [Get A, Get B, Get C] NewNodeStatusMonitor = Inr nsm3
          \<and> VisitStoreMonitors (\<lambda>a m ids. (m, ids @ [ID m])) nsm3 [] = Inr (nsm3, ids)
          \<and> mset ids = {#A, B, C#}))"
proof (intro conjI impI)
  assume "(registry_ok nsm \<or> (\<exists>ops. nodeRun ops NewNodeStatusMonitor = Inr nsm))
      \<and> mset es = mset (stores nsm)"
  then have "registry_ok nsm" and "mset es = mset (stores nsm)"
    using reachable_registry_ok by blast+
  then show "\<exists>nsm' v' log.
          VisitStoreMonitors_in es (logged visitor) nsm (v, []) = Inr (nsm', (v', log))
        \<and> VisitStoreMonitors_in es visitor nsm v = Inr (nsm', v')
        \<and> (\<forall>a. count_list log a = (if a \<in> snd ` set (stores nsm) then 1 else 0))
        \<and> stores nsm' = stores nsm \<and> length (heap nsm') = length (heap nsm)
        \<and> (\<forall>a. a \<notin> snd ` set (stores nsm) \<longrightarrow> heap nsm' ! a = heap nsm ! a)
        \<and> (\<forall>a \<in> snd ` set (stores nsm). \<exists>u. heap nsm' ! a = fst (visitor a (heap nsm ! a) u))
        \<and> ((\<forall>a m u. fst (visitor a m u) = m) \<longrightarrow> nsm' = nsm)"
    by (rule visit_each_entry_once)
next
  show "VisitStoreMonitors visitor nsm v = VisitStoreMonitors_in (stores nsm) visitor nsm v"
    by (simp add: VisitStoreMonitors_def)
next
  assume "A \<noteq> B \<and> A \<noteq> C \<and> B \<noteq> C"
  then have ne: "A \<noteq> B" "A \<noteq> C" "B \<noteq> C" by simp_all
  from three_stores [OF ne] three_stores_visit [of A B C]
  show "\<exists>nsm3 ids. nodeRun [Get A, Get B, Get C] NewNodeStatusMonitor = Inr nsm3
          \<and> VisitStoreMonitors (\<lambda>a m ids. (m, ids @ [ID m])) nsm3 [] = Inr (nsm3, ids)
          \<and> mset ids = {#A, B, C#}"
    by (intro exI [of _ "\<lparr>stores = [(A, 0), (B, 1), (C, 2)],
           heap = [new_StoreStatusMonitor A, new_StoreStatusMonitor B, new_StoreStatusMonitor C]\<rparr>"]
        exI [of _ "[A, B, C]"]) simp
qed

theorem VisitStoreMonitors_each_once_witness:
  "registry_ok \<lparr>stores = [(7::nat, 0), (9, 1)],
      heap = [new_StoreStatusMonitor 7 :: (nat, int) StoreStatusMonitor, new_StoreStatusMonitor 9]\<rparr>
   \<and> mset [(9::nat, 1::nat), (7, 0)]
       = mset (stores \<lparr>stores = [(7::nat, 0), (9, 1)],
           heap = [new_StoreStatusMonitor 7 :: (nat, int) StoreStatusMonitor, new_StoreStatusMonitor 9]\<rparr>)
   \<and> (\<exists>nsm' v' log.
          VisitStoreMonitors_in [(9, 1), (7, 0)] (logged (\<lambda>a m n. (m, n + (1::nat))))
            \<lparr>stores = [(7::nat, 0), (9, 1)],
             heap = [new_StoreStatusMonitor 7 :: (nat, int) StoreStatusMonitor, new_StoreStatusMonitor 9]\<rparr>
            (0, []) = Inr (nsm', (v', log))
        \<and> count_list log 0 = 1 \<and> count_list log 1 = 1 \<and> count_list log 2 = 0
        \<and> nsm' = \<lparr>stores = [(7::nat, 0), (9, 1)],
             heap = [new_StoreStatusMonitor 7 :: (nat, int) StoreStatusMonitor, new_StoreStatusMonitor 9]\<rparr>)"
proof -
  let ?X = "\<lparr>stores = [(7::nat, 0), (9, 1)],
      heap = [new_StoreStatusMonitor 7 :: (nat, int) StoreStatusMonitor, new_StoreStatusMonitor 9]\<rparr>"
  let ?es = "[(9::nat, 1::nat), (7, 0)]"
  let ?f = "\<lambda>(a::addr) (m :: (nat, int) StoreStatusMonitor) n. (m, n + (1::nat))"
  have ok: "registry_ok ?X" by (simp add: registry_ok_def)
  have perm: "mset ?es = mset (stores ?X)" by simp
  from VisitStoreMonitors_each_once
    [of ?X ?es ?f 0, THEN conjunct1, THEN mp, OF conjI, OF disjI1, OF ok perm]
  obtain nsm' where "\<exists>v' log.
          VisitStoreMonitors_in ?es (logged ?f) ?X (0, []) = Inr (nsm', (v', log))
        \<and> VisitStoreMonitors_in ?es ?f ?X 0 = Inr (nsm', v')
        \<and> (\<forall>a. count_list log a = (if a \<in> snd ` set (stores ?X) then 1 else 0))
        \<and> stores nsm' = stores ?X \<and> length (heap nsm') = length (heap ?X)
        \<and> (\<forall>a. a \<notin> snd ` set (stores ?X) \<longrightarrow> heap nsm' ! a = heap ?X ! a)
        \<and> (\<forall>a \<in> snd ` set (stores ?X). \<exists>u. heap nsm' ! a = fst (?f a (heap ?X ! a) u))
        \<and> ((\<forall>a m u. fst (?f a m u) = m) \<longrightarrow> nsm' = ?X)" ..
  then obtain v' where "\<exists>log.
          VisitStoreMonitors_in ?es (logged ?f) ?X (0, []) = Inr (nsm', (v', log))
        \<and> VisitStoreMonitors_in ?es ?f ?X 0 = Inr (nsm', v')
        \<and> (\<forall>a. count_list log a = (if a \<in> snd ` set (stores ?X) then 1 else 0))
        \<and> stores nsm' = stores ?X \<and> length (heap nsm') = length (heap ?X)
        \<and> (\<forall>a. a \<notin> snd ` set (stores ?X) \<longrightarrow> heap nsm' ! a = heap ?X ! a)
        \<and> (\<forall>a \<in> snd ` set (stores ?X). \<exists>u. heap nsm' ! a = fst (?f a (heap ?X ! a) u))
        \<and> ((\<forall>a m u. fst (?f a m u) = m) \<longrightarrow> nsm' = ?X)" ..
  then obtain log where all:
         "VisitStoreMonitors_in ?es (logged ?f) ?X (0, []) = Inr (nsm', (v', log))
        \<and> VisitStoreMonitors_in ?es ?f ?X 0 = Inr (nsm', v')
        \<and> (\<forall>a. count_list log a = (if a \<in> snd ` set (stores ?X) then 1 else 0))
        \<and> stores nsm' = stores ?X \<and> length (heap nsm') = length (heap ?X)
        \<and> (\<forall>a. a \<notin> snd ` set (stores ?X) \<longrightarrow> heap nsm' ! a = heap ?X ! a)
        \<and> (\<forall>a \<in> snd ` set (stores ?X). \<exists>u. heap nsm' ! a = fst (?f a (heap ?X ! a) u))
        \<and> ((\<forall>a m u. fst (?f a m u) = m) \<longrightarrow> nsm' = ?X)" ..
  from all have run: "VisitStoreMonitors_in ?es (logged ?f) ?X (0, []) = Inr (nsm', (v', log))"
    by (rule conjunct1)
  from all have cnt: "\<forall>a. count_list log a = (if a \<in> snd ` set (stores ?X) then 1 else 0)"
    by (elim conjE)
  from all have ro: "(\<forall>a m u. fst (?f a m u) = m) \<longrightarrow> nsm' = ?X"
    by (elim conjE)
  from cnt have c: "count_list log 0 = 1 \<and> count_list log 1 = 1 \<and> count_list log 2 = 0"
    by simp
  from ro have same: "nsm' = ?X" by simp
  from run c same have
    "VisitStoreMonitors_in ?es (logged ?f) ?X (0, []) = Inr (nsm', (v', log))
     \<and> count_list log 0 = 1 \<and> count_list log 1 = 1 \<and> count_list log 2 = 0 \<and> nsm' = ?X"
    by (intro conjI) (elim conjE, assumption)+
  then have "\<exists>nsm' v' log.
     VisitStoreMonitors_in ?es (logged ?f) ?X (0, []) = Inr (nsm', (v', log))
     \<and> count_list log 0 = 1 \<and> count_list log 1 = 1 \<and> count_list log 2 = 0 \<and> nsm' = ?X"
    by (intro exI)
  with ok perm show ?thesis by (intro conjI)
qed

end
